theory Spec2Isabelle
  imports Main "HOL-Library.Word"
begin

section \<open>The slotted page (page.hpp)\<close>

text \<open>
  \<^verbatim>\<open>template<size_t PageSize = 16384> class page\<close>. The template parameter is the first
  argument \<open>P\<close> of every operation below. The platform is the usual LP64 one: \<open>size_t\<close>
  has 64 bits, \<open>int\<close> has 32 bits, integers are stored little-endian, and a
  \<open>reinterpret_cast\<close> store or load of an \<open>intra_offset_t\<close> at any byte position of
  \<open>m_data\<close> writes or reads its bytes there. An access outside \<open>m_data\<close> is undefined
  behaviour in C++ and is the result \<open>Undefined_behaviour\<close> here.
\<close>

type_synonym byte = "8 word"

datatype page_error =
    Out_of_range          \<comment> \<open>\<^verbatim>\<open>std::out_of_range\<close>\<close>
  | Bad_alloc             \<comment> \<open>\<^verbatim>\<open>std::bad_alloc\<close>\<close>
  | Undefined_behaviour   \<comment> \<open>an access outside \<^verbatim>\<open>m_data\<close>\<close>

text \<open>\<^verbatim>\<open>sizeof(intra_offset_t)\<close>: \<^verbatim>\<open>uint16_t\<close> when \<^verbatim>\<open>page_size <= 16384\<close>, else \<^verbatim>\<open>uint32_t\<close>.\<close>

definition offset_width :: "nat \<Rightarrow> nat" where
  "offset_width P = (if P \<le> 16384 then 2 else 4)"

text \<open>\<^verbatim>\<open>sizeof(header)\<close>: two fields of type \<^verbatim>\<open>intra_offset_t\<close>.\<close>

definition header_size :: "nat \<Rightarrow> nat" where
  "header_size P = 2 * offset_width P"

text \<open>
  \<^verbatim>\<open>data_size = PageSize - sizeof(header)\<close>, the length of \<^verbatim>\<open>m_data\<close>. A \<open>PageSize\<close>
  below \<^verbatim>\<open>sizeof(header)\<close> would wrap this \<open>size_t\<close> to an array length no
  implementation accepts, so an instantiated page has \<open>header_size P \<le> P\<close>.
\<close>

definition data_size :: "nat \<Rightarrow> nat" where
  "data_size P = P - header_size P"

text \<open>Conversion of an integer result to \<open>size_t\<close> and to \<^verbatim>\<open>intra_offset_t\<close>.\<close>

definition size_t :: "int \<Rightarrow> nat" where
  "size_t i = nat (i mod 2 ^ 64)"

definition intra_offset_t :: "nat \<Rightarrow> int \<Rightarrow> nat" where
  "intra_offset_t P i = nat (i mod 2 ^ (8 * offset_width P))"

record header =
  free_region_start :: nat
  free_region_end :: nat

record page =
  m_header :: header
  m_data :: "byte list"

text \<open>The bytes of an unsigned integer of \<open>k\<close> bytes, and the integer of some bytes.\<close>

fun encode_le :: "nat \<Rightarrow> nat \<Rightarrow> byte list" where
  "encode_le 0 n = []"
| "encode_le (Suc k) n = word_of_nat (n mod 256) # encode_le k (n div 256)"

fun decode_le :: "byte list \<Rightarrow> nat" where
  "decode_le [] = 0"
| "decode_le (b # bs) = unat b + 256 * decode_le bs"

text \<open>A store of \<open>bs\<close> at byte \<open>pos\<close> of a buffer, and a load of \<open>k\<close> bytes there; the
  callers check the bounds first.\<close>

definition store :: "byte list \<Rightarrow> nat \<Rightarrow> byte list \<Rightarrow> byte list" where
  "store mem pos bs = take pos mem @ bs @ drop (pos + length bs) mem"

definition load :: "byte list \<Rightarrow> nat \<Rightarrow> nat \<Rightarrow> byte list" where
  "load mem pos k = take k (drop pos mem)"

text \<open>
  \<^verbatim>\<open>page()\<close>. The constructor leaves \<^verbatim>\<open>m_data\<close> uninitialised: \<open>mem\<close> is whatever the
  \<open>data_size P\<close> bytes of the array hold.
\<close>

definition page_ctor :: "nat \<Rightarrow> byte list \<Rightarrow> page" where
  "page_ctor P mem =
     \<lparr>m_header = \<lparr>free_region_start = intra_offset_t P (int (header_size P)),
                  free_region_end = intra_offset_t P (int (data_size P))\<rparr>,
      m_data = mem\<rparr>"

text \<open>
  \<^verbatim>\<open>size()\<close>: \<^verbatim>\<open>(m_header.free_region_start - sizeof(header)) / sizeof(intra_offset_t)\<close>,
  computed in \<open>size_t\<close>.
\<close>

definition size_page :: "nat \<Rightarrow> page \<Rightarrow> nat" where
  "size_page P pg =
     size_t (int (free_region_start (m_header pg)) - int (header_size P)) div offset_width P"

definition empty_page :: "nat \<Rightarrow> page \<Rightarrow> bool" where
  "empty_page P pg = (size_page P pg = 0)"

definition contains :: "nat \<Rightarrow> page \<Rightarrow> nat \<Rightarrow> bool" where
  "contains P pg index = (index < size_page P pg)"

text \<open>
  \<^verbatim>\<open>free_space()\<close>: \<^verbatim>\<open>m_header.free_region_end - m_header.free_region_start\<close>, returned
  as \<open>size_t\<close>. Two \<^verbatim>\<open>uint16_t\<close> operands are promoted to \<open>int\<close>, so their difference
  can be negative before the conversion; two \<^verbatim>\<open>uint32_t\<close> operands subtract modulo
  \<open>2 ^ 32\<close>.
\<close>

definition free_space :: "nat \<Rightarrow> page \<Rightarrow> nat" where
  "free_space P pg =
     (let d = int (free_region_end (m_header pg)) - int (free_region_start (m_header pg))
      in if offset_width P = 2 then size_t d else size_t (d mod 2 ^ 32))"

definition fits :: "nat \<Rightarrow> page \<Rightarrow> nat \<Rightarrow> bool" where
  "fits P pg n = (free_space P pg \<ge> n)"

text \<open>
  \<^verbatim>\<open>size_t insert(std::string_view data)\<close>, statement by statement: the check, the
  record's start, the length prefix, the payload, the offset-table entry, the header.
\<close>

definition insert_page :: "nat \<Rightarrow> byte list \<Rightarrow> page \<Rightarrow> page_error + (nat \<times> page)" where
  "insert_page P data pg =
     (let w = offset_width P in
      if \<not> fits P pg (size_t (int (length data) + int w + 2)) then Inl Bad_alloc
      else
        let start = size_t (int (free_region_end (m_header pg)) - int (length data) - int w) in
        if \<not> start + w + length data \<le> data_size P then Inl Undefined_behaviour
        else
          let mem1 = store (m_data pg) start (encode_le w (intra_offset_t P (int (length data))));
              mem2 = store mem1 (start + w) data;
              current_entry = size_page P pg in
          if \<not> w * current_entry + w \<le> data_size P then Inl Undefined_behaviour
          else
            let mem3 = store mem2 (w * current_entry) (encode_le w (intra_offset_t P (int start)))
            in Inr (current_entry,
                 \<lparr>m_header =
                    \<lparr>free_region_start =
                       intra_offset_t P (int (free_region_start (m_header pg)) + int w),
                     free_region_end = intra_offset_t P (int start)\<rparr>,
                  m_data = mem3\<rparr>))"

text \<open>\<^verbatim>\<open>clear()\<close>: the end of the free region is set to \<^verbatim>\<open>PageSize\<close>.\<close>

definition clear :: "nat \<Rightarrow> page \<Rightarrow> page" where
  "clear P pg =
     pg\<lparr>m_header := \<lparr>free_region_start = intra_offset_t P (int (header_size P)),
                      free_region_end = intra_offset_t P (int P)\<rparr>\<rparr>"

text \<open>
  \<^verbatim>\<open>size_and_offset_of(index)\<close> and \<^verbatim>\<open>at(index)\<close>: the entry of the offset table and the
  length prefix it points to. The span \<^verbatim>\<open>at\<close> returns starts at \<open>first\<close>, behind the
  prefix, and has \<open>sz\<close> elements; \<open>at\<close> below gives the bytes that span views. The code
  also returns a span that reaches past \<^verbatim>\<open>m_data\<close>; its bytes are not bytes of the page,
  and \<open>at\<close> is \<open>Undefined_behaviour\<close> there. The theorems below evaluate \<open>at\<close> only
  where the span lies inside \<^verbatim>\<open>m_data\<close>.
\<close>

definition size_and_offset_of :: "nat \<Rightarrow> page \<Rightarrow> nat \<Rightarrow> page_error + (nat \<times> nat)" where
  "size_and_offset_of P pg index =
     (let w = offset_width P in
      if \<not> w * index + w \<le> data_size P then Inl Undefined_behaviour
      else
        let data_offset = decode_le (load (m_data pg) (w * index) w) in
        if \<not> data_offset + w \<le> data_size P then Inl Undefined_behaviour
        else Inr (decode_le (load (m_data pg) data_offset w), data_offset + w))"

definition at :: "nat \<Rightarrow> page \<Rightarrow> nat \<Rightarrow> page_error + byte list" where
  "at P pg index =
     (if \<not> contains P pg index then Inl Out_of_range
      else
        case size_and_offset_of P pg index of
          Inl e \<Rightarrow> Inl e
        | Inr (sz, first) \<Rightarrow>
            if \<not> first + sz \<le> data_size P then Inl Undefined_behaviour
            else Inr (load (m_data pg) first sz))"

text \<open>
  \<^verbatim>\<open>operator<<\<close> writes the header and then the data buffer. \<^verbatim>\<open>operator>>\<close> reads them
  back from the bytes \<open>bs\<close> a stream holds: \<^verbatim>\<open>istream::read\<close> stores the bytes there are,
  and after a short read the stream has failed and the second read stores nothing.
\<close>

definition serialize :: "nat \<Rightarrow> page \<Rightarrow> byte list" where
  "serialize P pg =
     encode_le (offset_width P) (free_region_start (m_header pg)) @
     encode_le (offset_width P) (free_region_end (m_header pg)) @
     m_data pg"

definition stream_read :: "byte list \<Rightarrow> nat \<Rightarrow> byte list \<Rightarrow> byte list" where
  "stream_read bs n buf = take n bs @ drop (length (take n bs)) buf"

definition deserialize :: "nat \<Rightarrow> byte list \<Rightarrow> page \<Rightarrow> page" where
  "deserialize P bs pg =
     (let w = offset_width P;
          hdr = stream_read bs (header_size P)
                  (encode_le w (free_region_start (m_header pg)) @
                   encode_le w (free_region_end (m_header pg)));
          mem = (if header_size P \<le> length bs
                 then stream_read (drop (header_size P) bs) (data_size P) (m_data pg)
                 else m_data pg)
      in \<lparr>m_header = \<lparr>free_region_start = decode_le (take w hdr),
                       free_region_end = decode_le (drop w hdr)\<rparr>,
          m_data = mem\<rparr>)"

text \<open>
  A value of the C++ type \<^verbatim>\<open>page<P>\<close>: the array has \<open>data_size P\<close> bytes and each header
  field fits an \<^verbatim>\<open>intra_offset_t\<close>.
\<close>

definition wf_page :: "nat \<Rightarrow> page \<Rightarrow> bool" where
  "wf_page P pg =
     (length (m_data pg) = data_size P \<and>
      free_region_start (m_header pg) < 256 ^ offset_width P \<and>
      free_region_end (m_header pg) < 256 ^ offset_width P)"

text \<open>
  The layout the inserts build, for the records \<open>recs\<close> inserted so far: entry \<open>k\<close>
  of the offset table points into the record area, at a length prefix followed by the
  bytes of record \<open>k\<close>; the offset table ends \<open>header_size P\<close> bytes below
  \<open>free_region_start\<close>, and the free region lies inside the buffer.
\<close>

definition record_at :: "nat \<Rightarrow> page \<Rightarrow> nat \<Rightarrow> byte list \<Rightarrow> bool" where
  "record_at P pg k d =
     (let w = offset_width P; off = decode_le (load (m_data pg) (w * k) w)
      in free_region_end (m_header pg) \<le> off \<and> off + w + length d \<le> data_size P \<and>
         decode_le (load (m_data pg) off w) = length d \<and>
         load (m_data pg) (off + w) (length d) = d)"

definition page_inv :: "nat \<Rightarrow> page \<Rightarrow> byte list list \<Rightarrow> bool" where
  "page_inv P pg recs =
     (length (m_data pg) = data_size P \<and>
      free_region_start (m_header pg) = header_size P + offset_width P * length recs \<and>
      free_region_start (m_header pg) \<le> free_region_end (m_header pg) \<and>
      free_region_end (m_header pg) \<le> data_size P \<and>
      (\<forall>k < length recs. record_at P pg k (recs ! k)))"

text \<open>A sequence of inserts, with the index each one returned; the first failure ends it.\<close>

fun insert_all :: "nat \<Rightarrow> byte list list \<Rightarrow> page \<Rightarrow> page_error + (nat list \<times> page)" where
  "insert_all P [] pg = Inr ([], pg)"
| "insert_all P (d # ds) pg =
     (case insert_page P d pg of
        Inl e \<Rightarrow> Inl e
      | Inr (i, pg') \<Rightarrow>
          (case insert_all P ds pg' of
             Inl e \<Rightarrow> Inl e
           | Inr (is, pg'') \<Rightarrow> Inr (i # is, pg'')))"

section \<open>The LRU cache (lru.hpp)\<close>

text \<open>
  A managed object is named by the address of its control block. A \<^verbatim>\<open>shared_ptr\<close> is
  such an address or \<^verbatim>\<open>nullptr\<close>; a \<^verbatim>\<open>weak_ptr\<close> is one or empty. A list iterator names
  a node of \<^verbatim>\<open>m_list\<close>: every \<^verbatim>\<open>push_front\<close> allocates a node with a name never used
  before, so an iterator to a node that was popped names no node of the list.
\<close>

type_synonym obj = nat
type_synonym pointer = "obj option"
type_synonym weak_pointer = "obj option"
type_synonym list_iterator = nat

datatype lru_error =
    Pop_back_empty      \<comment> \<open>\<^verbatim>\<open>pop_back\<close> on an empty list: undefined behaviour\<close>
  | Invalid_iterator    \<comment> \<open>\<^verbatim>\<open>splice\<close> with an iterator to no node: undefined behaviour\<close>

record 'k lru =
  m_list :: "(list_iterator \<times> pointer) list"
  m_map :: "'k \<rightharpoonup> weak_pointer"
  m_iter_map :: "'k \<rightharpoonup> list_iterator"
  m_size :: nat
  next_node :: list_iterator

text \<open>\<^verbatim>\<open>explicit lru(size_t size)\<close>.\<close>

definition lru_ctor :: "nat \<Rightarrow> 'k lru" where
  "lru_ctor sz =
     \<lparr>m_list = [], m_map = Map.empty, m_iter_map = Map.empty, m_size = sz, next_node = 0\<rparr>"

text \<open>
  The strong references to an object: those held outside the cache (\<open>ext\<close> counts them
  for each object) and the \<^verbatim>\<open>shared_ptr\<close>s stored in the nodes of \<^verbatim>\<open>m_list\<close>. The
  \<^verbatim>\<open>weak_ptr\<close>s of \<^verbatim>\<open>m_map\<close> do not count. \<^verbatim>\<open>weak_ptr::lock\<close> gives the object while a
  strong reference exists.
\<close>

definition use_count :: "(obj \<Rightarrow> nat) \<Rightarrow> 'k lru \<Rightarrow> obj \<Rightarrow> nat" where
  "use_count ext c ob = ext ob + length (filter (\<lambda>n. snd n = Some ob) (m_list c))"

definition lock :: "(obj \<Rightarrow> nat) \<Rightarrow> 'k lru \<Rightarrow> weak_pointer \<Rightarrow> pointer" where
  "lock ext c wp =
     (case wp of
        None \<Rightarrow> None
      | Some ob \<Rightarrow> if 0 < use_count ext c ob then Some ob else None)"

definition pop_back :: "'a list \<Rightarrow> lru_error + 'a list" where
  "pop_back l = (if l = [] then Inl Pop_back_empty else Inr (butlast l))"

text \<open>\<^verbatim>\<open>m_list.splice(m_list.begin(), m_list, it)\<close>: the node \<open>it\<close> names moves to the front.\<close>

definition splice_front ::
  "list_iterator \<Rightarrow> (list_iterator \<times> pointer) list \<Rightarrow> lru_error + (list_iterator \<times> pointer) list"
where
  "splice_front it l =
     (case find (\<lambda>n. fst n = it) l of
        None \<Rightarrow> Inl Invalid_iterator
      | Some n \<Rightarrow> Inr (n # remove1 n l))"

text \<open>\<^verbatim>\<open>void insert(key_type key, pointer ptr)\<close>.\<close>

definition insert_lru :: "'k \<Rightarrow> pointer \<Rightarrow> 'k lru \<Rightarrow> lru_error + 'k lru" where
  "insert_lru key ptr c =
     (case (if length (m_list c) \<ge> m_size c then pop_back (m_list c) else Inr (m_list c)) of
        Inl e \<Rightarrow> Inl e
      | Inr l \<Rightarrow>
          Inr (c\<lparr>m_list := (next_node c, ptr) # l,
                 m_map := (m_map c)(key \<mapsto> ptr),
                 m_iter_map := (m_iter_map c)(key \<mapsto> next_node c),
                 next_node := Suc (next_node c)\<rparr>))"

text \<open>
  \<^verbatim>\<open>pointer get(key_type key)\<close>. When the key has no entry in \<^verbatim>\<open>m_iter_map\<close>,
  \<^verbatim>\<open>m_iter_map[key]\<close> is a value-initialised iterator, which names no node.
\<close>

definition get_lru :: "(obj \<Rightarrow> nat) \<Rightarrow> 'k \<Rightarrow> 'k lru \<Rightarrow> lru_error + (pointer \<times> 'k lru)" where
  "get_lru ext key c =
     (case m_map c key of
        None \<Rightarrow> Inr (None, c)
      | Some wp \<Rightarrow>
          (case lock ext c wp of
             None \<Rightarrow>
               Inr (None, c\<lparr>m_map := (m_map c)(key := None),
                             m_iter_map := (m_iter_map c)(key := None)\<rparr>)
           | Some ob \<Rightarrow>
               (case m_iter_map c key of
                  None \<Rightarrow> Inl Invalid_iterator
                | Some it \<Rightarrow>
                    (case splice_front it (m_list c) of
                       Inl e \<Rightarrow> Inl e
                     | Inr l \<Rightarrow> Inr (Some ob, c\<lparr>m_list := l\<rparr>)))))"

text \<open>
  The cache and its callers. \<open>owners\<close> counts the \<^verbatim>\<open>shared_ptr\<close>s the callers hold to
  each object. A caller makes an object (\<^verbatim>\<open>std::make_shared\<close>), drops a pointer it
  holds, inserts a pointer it holds or \<^verbatim>\<open>nullptr\<close>, inserts a value (the overload
  \<^verbatim>\<open>insert(key_type, value_type &&)\<close>, whose \<^verbatim>\<open>make_shared\<close> temporary is gone on return),
  or calls \<^verbatim>\<open>get\<close> and keeps the returned pointer or not. A call naming a pointer the
  caller does not hold cannot be written in C++; it is \<open>Not_an_owner\<close>.
\<close>

record 'k world =
  cache :: "'k lru"
  owners :: "obj \<Rightarrow> nat"
  next_obj :: obj

datatype 'k call =
    Make_shared
  | Release obj
  | Insert_ptr 'k pointer
  | Insert_value 'k
  | Get 'k bool

datatype run_error = Lru lru_error | Not_an_owner

definition new_world :: "nat \<Rightarrow> 'k world" where
  "new_world sz = \<lparr>cache = lru_ctor sz, owners = (\<lambda>_. 0), next_obj = 0\<rparr>"

fun step :: "'k call \<Rightarrow> 'k world \<Rightarrow> run_error + 'k world" where
  "step Make_shared w =
     Inr (w\<lparr>owners := (owners w)(next_obj w := 1), next_obj := Suc (next_obj w)\<rparr>)"
| "step (Release ob) w =
     (if owners w ob = 0 then Inl Not_an_owner
      else Inr (w\<lparr>owners := (owners w)(ob := owners w ob - 1)\<rparr>))"
| "step (Insert_ptr key ptr) w =
     (if (case ptr of None \<Rightarrow> False | Some ob \<Rightarrow> owners w ob = 0) then Inl Not_an_owner
      else
        case insert_lru key ptr (cache w) of
          Inl e \<Rightarrow> Inl (Lru e)
        | Inr c \<Rightarrow> Inr (w\<lparr>cache := c\<rparr>))"
| "step (Insert_value key) w =
     (case insert_lru key (Some (next_obj w)) (cache w) of
        Inl e \<Rightarrow> Inl (Lru e)
      | Inr c \<Rightarrow> Inr (w\<lparr>cache := c, next_obj := Suc (next_obj w)\<rparr>))"
| "step (Get key keep) w =
     (case get_lru (owners w) key (cache w) of
        Inl e \<Rightarrow> Inl (Lru e)
      | Inr (ptr, c) \<Rightarrow>
          Inr (w\<lparr>cache := c,
                 owners := (case ptr of
                              Some ob \<Rightarrow> if keep then (owners w)(ob := owners w ob + 1)
                                         else owners w
                            | None \<Rightarrow> owners w)\<rparr>))"

fun run :: "'k call list \<Rightarrow> 'k world \<Rightarrow> run_error + 'k world" where
  "run [] w = Inr w"
| "run (c # cs) w = (case step c w of Inl e \<Rightarrow> Inl e | Inr w' \<Rightarrow> run cs w')"

text \<open>
  What every sequence of calls keeps true of the cache: the capacity is fixed, the list is
  no longer than it, and both maps have the same keys.
\<close>

definition lru_inv :: "nat \<Rightarrow> 'k lru \<Rightarrow> bool" where
  "lru_inv cap c =
     (m_size c = cap \<and> length (m_list c) \<le> cap \<and> dom (m_map c) = dom (m_iter_map c))"

section \<open>Page: bytes, stores and loads\<close>

lemmas page_consts = offset_width_def header_size_def data_size_def intra_offset_t_def size_t_def

lemma length_encode_le [simp]: "length (encode_le k n) = k"
  by (induction k arbitrary: n) simp_all

lemma decode_encode_le: "decode_le (encode_le k n) = n mod 256 ^ k"
proof (induction k arbitrary: n)
  case 0
  then show ?case by simp
next
  case (Suc k)
  have "unat (word_of_nat (n mod 256) :: byte) = n mod 256"
    by (simp add: unat_of_nat)
  then have "decode_le (encode_le (Suc k) n) = n mod 256 + 256 * (n div 256 mod 256 ^ k)"
    using Suc.IH [of "n div 256"] by simp
  also have "\<dots> = n mod 256 ^ Suc k"
    by (simp add: mod_mult2_eq)
  finally show ?case .
qed

lemma length_store: "pos + length bs \<le> length mem \<Longrightarrow> length (store mem pos bs) = length mem"
  by (simp add: store_def)

lemma load_store_same:
  "pos + length bs \<le> length mem \<Longrightarrow> load (store mem pos bs) pos (length bs) = bs"
  by (simp add: store_def load_def)

lemma load_store_below:
  "p + k \<le> pos \<Longrightarrow> pos \<le> length mem \<Longrightarrow> load (store mem pos bs) p k = load mem p k"
  by (simp add: store_def load_def take_drop)

lemma load_store_above:
  "pos + length bs \<le> p \<Longrightarrow> pos + length bs \<le> length mem \<Longrightarrow>
   load (store mem pos bs) p k = load mem p k"
  by (simp add: store_def load_def)

lemma take_store_within:
  "pos + length bs \<le> n \<Longrightarrow> take n (store mem pos bs) = store (take n mem) pos bs"
proof (cases "n \<le> pos")
  case True
  assume "pos + length bs \<le> n"
  with True have "n = pos" "length bs = 0" by arith+
  then have "n = pos" "bs = []" by simp_all
  then show ?thesis by (simp add: store_def)
next
  case False
  assume "pos + length bs \<le> n"
  with False show ?thesis by (simp add: store_def drop_take min_def)
qed

lemma take_store_beyond:
  "n \<le> pos \<Longrightarrow> pos \<le> length mem \<Longrightarrow> take n (store mem pos bs) = take n mem"
  by (simp add: store_def)

lemma load_take: "p + k \<le> n \<Longrightarrow> load (take n mem) p k = load mem p k"
  by (simp add: load_def drop_take)

text \<open>Unfolding on numerals, for the evaluation of concrete pages.\<close>

lemma encode_le_2: "encode_le 2 n = [word_of_nat (n mod 256), word_of_nat (n div 256 mod 256)]"
proof -
  have "(2::nat) = Suc (Suc 0)" by simp
  then show ?thesis by (simp only: encode_le.simps)
qed

lemma encode_le_4: "encode_le 4 n =
  [word_of_nat (n mod 256), word_of_nat (n div 256 mod 256),
   word_of_nat (n div 256 div 256 mod 256), word_of_nat (n div 256 div 256 div 256 mod 256)]"
proof -
  have "(4::nat) = Suc (Suc (Suc (Suc 0)))" by simp
  then show ?thesis by (simp only: encode_le.simps)
qed

lemma replicate_byte_numeral:
  "replicate (numeral k) (b :: byte) = b # replicate (pred_numeral k) b"
  unfolding numeral_eq_Suc by simp

lemmas insert_eval = insert_page_def page_ctor_def fits_def free_space_def size_page_def
  page_consts Let_def

lemmas page_eval = insert_eval at_def contains_def size_and_offset_of_def serialize_def
  deserialize_def stream_read_def store_def load_def encode_le_2 replicate_byte_numeral

section \<open>Page: what a successful \<open>insert\<close> has done\<close>

lemma intra_offset_t_less: "intra_offset_t P i < 256 ^ offset_width P"
proof -
  have "(2::nat) ^ (8 * offset_width P) = 256 ^ offset_width P"
    by (simp add: power_mult)
  moreover have "intra_offset_t P i < 2 ^ (8 * offset_width P)"
    unfolding intra_offset_t_def by (simp add: nat_less_iff)
  ultimately show ?thesis by simp
qed

lemma wf_page_ctor: "length mem = data_size P \<Longrightarrow> wf_page P (page_ctor P mem)"
  by (simp add: wf_page_def page_ctor_def intra_offset_t_less)

lemma insert_page_Inr:
  assumes "insert_page P d pg = Inr (i, pg')"
  shows "i = size_page P pg"
    and "fits P pg (size_t (int (length d) + int (offset_width P) + 2))"
    and "size_t (int (free_region_end (m_header pg)) - int (length d) - int (offset_width P)) +
           offset_width P + length d \<le> data_size P"
    and "offset_width P * size_page P pg + offset_width P \<le> data_size P"
    and "m_header pg' =
           \<lparr>free_region_start =
              intra_offset_t P (int (free_region_start (m_header pg)) + int (offset_width P)),
            free_region_end =
              intra_offset_t P
                (int (size_t (int (free_region_end (m_header pg)) - int (length d) -
                   int (offset_width P))))\<rparr>"
    and "m_data pg' =
           store
             (store
                (store (m_data pg)
                   (size_t (int (free_region_end (m_header pg)) - int (length d) -
                      int (offset_width P)))
                   (encode_le (offset_width P) (intra_offset_t P (int (length d)))))
                (size_t (int (free_region_end (m_header pg)) - int (length d) -
                   int (offset_width P)) + offset_width P)
                d)
             (offset_width P * size_page P pg)
             (encode_le (offset_width P)
                (intra_offset_t P
                   (int (size_t (int (free_region_end (m_header pg)) - int (length d) -
                      int (offset_width P))))))"
  using assms by (auto simp: insert_page_def Let_def split: if_splits)

lemma wf_page_insert:
  assumes "wf_page P pg" and "insert_page P d pg = Inr (i, pg')"
  shows "wf_page P pg'"
proof -
  note ins = insert_page_Inr [OF assms(2)]
  from assms(1) have len: "length (m_data pg) = data_size P"
    by (simp add: wf_page_def)
  have "length (m_data pg') = data_size P"
    using ins(3,4) len by (simp add: ins(6) length_store)
  then show ?thesis
    by (simp add: wf_page_def ins(5) intra_offset_t_less)
qed

lemma wf_page_insert_all:
  "wf_page P pg \<Longrightarrow> insert_all P ds pg = Inr (is, pg') \<Longrightarrow> wf_page P pg'"
proof (induction ds arbitrary: pg "is")
  case Nil
  then show ?case by simp
next
  case (Cons d ds)
  then show ?case
    by (auto split: sum.splits prod.splits dest: wf_page_insert)
qed

lemma deserialize_serialize:
  assumes "wf_page P pg" and "length (m_data pg0) = data_size P"
  shows "deserialize P (serialize P pg) pg0 = pg"
proof -
  from assms(1) have len: "length (m_data pg) = data_size P"
    and s: "free_region_start (m_header pg) < 256 ^ offset_width P"
    and e: "free_region_end (m_header pg) < 256 ^ offset_width P"
    by (simp_all add: wf_page_def)
  let ?w = "offset_width P"
  let ?hdr = "encode_le ?w (free_region_start (m_header pg)) @
              encode_le ?w (free_region_end (m_header pg))"
  have hs: "header_size P = ?w + ?w" by (simp add: header_size_def)
  have h: "stream_read (serialize P pg) (header_size P)
             (encode_le ?w (free_region_start (m_header pg0)) @
              encode_le ?w (free_region_end (m_header pg0))) = ?hdr"
    by (simp add: stream_read_def serialize_def hs)
  have m: "stream_read (drop (header_size P) (serialize P pg)) (data_size P) (m_data pg0) =
           m_data pg"
    using len assms(2) by (simp add: stream_read_def serialize_def hs)
  have l: "header_size P \<le> length (serialize P pg)"
    by (simp add: serialize_def hs)
  have "deserialize P (serialize P pg) pg0 =
        \<lparr>m_header = \<lparr>free_region_start = decode_le (take ?w ?hdr),
                      free_region_end = decode_le (drop ?w ?hdr)\<rparr>,
         m_data = m_data pg\<rparr>"
    unfolding deserialize_def Let_def h m using l by simp
  also have "\<dots> = pg"
    using s e by (simp add: decode_encode_le)
  finally show ?thesis .
qed

section \<open>Page: the header after \<open>clear\<close>\<close>

text \<open>
  C1. The claim is that after every operation the header satisfies
  \<open>free_region_start \<le> free_region_end \<le> data_size\<close>, in particular after \<^verbatim>\<open>clear()\<close>.
  On a page of 128 bytes, whose data buffer has 124, the constructor sets
  \<open>free_region_end\<close> to 124 and \<^verbatim>\<open>clear()\<close> sets it to 128, beyond the buffer; the next
  insert then stores outside \<^verbatim>\<open>m_data\<close>.
\<close>

theorem clear_sets_free_region_end_beyond_data_size:
  "data_size 128 = 124 \<and>
   free_region_end (m_header (page_ctor 128 (replicate 124 0))) = 124 \<and>
   free_region_end (m_header (clear 128 (page_ctor 128 (replicate 124 0)))) = 128 \<and>
   insert_page 128 [72, 105] (clear 128 (page_ctor 128 (replicate 124 0))) =
     Inl Undefined_behaviour"
  by (simp add: page_consts page_ctor_def clear_def insert_page_def fits_def free_space_def)

text \<open>
  C2. The claim is that \<^verbatim>\<open>clear()\<close> restores the header of a freshly constructed page,
  so that \<^verbatim>\<open>free_space()\<close> is that of a new page, and changes no byte of the buffer. For
  every page \<open>pg\<close> of 128 bytes, \<^verbatim>\<open>clear()\<close> leaves the buffer alone and gives size 0, but
  its \<open>free_region_end\<close> is 128 where the constructor's is 124, and its free space is
  124 where a new page's is 120.
\<close>

theorem clear_header_is_not_the_new_page_header:
  "m_header (clear 128 pg) = \<lparr>free_region_start = 4, free_region_end = 128\<rparr> \<and>
   m_header (page_ctor 128 mem) = \<lparr>free_region_start = 4, free_region_end = 124\<rparr> \<and>
   free_space 128 (clear 128 pg) = 124 \<and>
   free_space 128 (page_ctor 128 mem) = 120 \<and>
   size_page 128 (clear 128 pg) = 0 \<and>
   m_data (clear 128 pg) = m_data pg"
  by (simp add: page_consts page_ctor_def clear_def free_space_def size_page_def)

section \<open>Page: the space check of \<open>insert\<close> on a page above 16384 bytes\<close>

text \<open>
  C3. The claim is that, for every page capacity, \<^verbatim>\<open>insert\<close> raises the out-of-space error
  exactly when the record's length plus the offset width plus the width of the length
  prefix exceeds \<open>free_region_end - free_region_start\<close>. On a page of 32768 bytes an
  offset and a length prefix have 4 bytes each, and \<^verbatim>\<open>insert\<close> stores the prefix as an
  \<^verbatim>\<open>intra_offset_t\<close>, but its check adds the constant 2 for the prefix. The free region
  of the new page has 32752 bytes; a record of 32746 bytes needs 32754 and is accepted,
  and the header it leaves has \<open>free_region_start = 12\<close> above \<open>free_region_end = 10\<close>.
\<close>

theorem insert_accepts_record_beyond_free_space:
  "offset_width 32768 = 4 \<and>
   free_region_end (m_header (page_ctor 32768 (replicate 32760 0))) -
     free_region_start (m_header (page_ctor 32768 (replicate 32760 0))) = 32752 \<and>
   length (replicate 32746 (97::byte)) + offset_width 32768 + offset_width 32768 = 32754 \<and>
   (case insert_page 32768 (replicate 32746 97) (page_ctor 32768 (replicate 32760 0)) of
      Inl e \<Rightarrow> None
    | Inr (i, pg) \<Rightarrow> Some (i, m_header pg)) =
     Some (0, \<lparr>free_region_start = 12, free_region_end = 10\<rparr>)"
  by (simp add: insert_eval)

text \<open>
  C9. The claim is that every successful insert lowers \<^verbatim>\<open>free_space()\<close> by the payload
  length plus twice the offset width. The insert above is successful; the free space
  was 32752 before it and is 4294967294 after it, the 32-bit difference of the header's
  10 and 12. The size goes from 0 to 1 as claimed.
\<close>

theorem insert_can_raise_free_space:
  "free_space 32768 (page_ctor 32768 (replicate 32760 0)) = 32752 \<and>
   (case insert_page 32768 (replicate 32746 97) (page_ctor 32768 (replicate 32760 0)) of
      Inl e \<Rightarrow> None
    | Inr (i, pg) \<Rightarrow> Some (free_space 32768 pg, size_page 32768 pg)) =
     Some (4294967294, 1)"
  by (simp add: insert_eval)

section \<open>Page: \<open>at\<close> after that insert\<close>

text \<open>
  The page of 32768 bytes after the inserts of 32746 bytes and of the two bytes 7, 7:
  the indices returned, the header, and the first 14 bytes of the buffer.
\<close>

lemma two_inserts_on_32768:
  "\<exists>m2. insert_all 32768 [replicate 32746 97, [7, 7]] (page_ctor 32768 (replicate 32760 0)) =
          Inr ([0, 1],
               \<lparr>m_header = \<lparr>free_region_start = 16, free_region_end = 4\<rparr>, m_data = m2\<rparr>) \<and>
        length m2 = 32760 \<and>
        take 14 m2 = [10, 0, 0, 0, 4, 0, 0, 0, 7, 7, 234, 127, 0, 0]"
proof -
  define m1 where "m1 = store (store (store (replicate 32760 (0::byte)) 10 (encode_le 4 32746)) 14
      (replicate 32746 97)) 0 (encode_le 4 10)"
  define m2 where "m2 = store (store (store m1 4 (encode_le 4 2)) 8 [7, 7]) 4 (encode_le 4 4)"
  have s1: "insert_page 32768 (replicate 32746 97) (page_ctor 32768 (replicate 32760 0)) =
      Inr (0, \<lparr>m_header = \<lparr>free_region_start = 12, free_region_end = 10\<rparr>, m_data = m1\<rparr>)"
    by (simp add: insert_eval m1_def)
  have s2: "insert_page 32768 [7, 7]
        \<lparr>m_header = \<lparr>free_region_start = 12, free_region_end = 10\<rparr>, m_data = m1\<rparr> =
      Inr (1, \<lparr>m_header = \<lparr>free_region_start = 16, free_region_end = 4\<rparr>, m_data = m2\<rparr>)"
    by (simp add: insert_eval m2_def)
  have l1: "length m1 = 32760"
    by (simp add: m1_def length_store)
  have l2: "length m2 = 32760"
    by (simp add: m2_def length_store l1)
  have "take 14 m1 = store (store (replicate 14 0) 10 (encode_le 4 32746)) 0 (encode_le 4 10)"
    by (simp add: m1_def take_store_within take_store_beyond length_store)
  then have t1: "take 14 m1 = [10, 0, 0, 0, 0, 0, 0, 0, 0, 0, 234, 127, 0, 0]"
    by (simp add: encode_le_4 store_def replicate_byte_numeral)
  have "take 14 m2 = store (store (store (take 14 m1) 4 (encode_le 4 2)) 8 [7, 7]) 4 (encode_le 4 4)"
    by (simp add: m2_def take_store_within)
  then have t2: "take 14 m2 = [10, 0, 0, 0, 4, 0, 0, 0, 7, 7, 234, 127, 0, 0]"
    by (simp add: t1 encode_le_4 store_def)
  have "insert_all 32768 [replicate 32746 97, [7, 7]] (page_ctor 32768 (replicate 32760 0)) =
      Inr ([0, 1],
           \<lparr>m_header = \<lparr>free_region_start = 16, free_region_end = 4\<rparr>, m_data = m2\<rparr>)"
    by (simp add: s1 s2)
  with l2 t2 show ?thesis by blast
qed

lemma at_1_on_32768:
  assumes "take 14 m2 = [10, 0, 0, 0, 4, 0, 0, 0, 7, 7, 234, 127, 0, 0]"
  shows "at 32768 \<lparr>m_header = \<lparr>free_region_start = 16, free_region_end = 4\<rparr>, m_data = m2\<rparr> 1 =
         Inr [7, 7, 234, 127]"
proof -
  have a: "load m2 4 4 = [4, 0, 0, 0]"
    using load_take [of 4 4 14 m2] by (simp add: assms load_def)
  have b: "load m2 8 4 = [7, 7, 234, 127]"
    using load_take [of 8 4 14 m2] by (simp add: assms load_def)
  show ?thesis
    by (simp add: at_def contains_def size_and_offset_of_def size_page_def page_consts a b)
qed

text \<open>
  C7. The claim is that on every page built by successful inserts \<^verbatim>\<open>at(index)\<close> returns
  the bytes passed to the insert that returned \<open>index\<close>. On the page of 32768 bytes, after
  the record of 32746 bytes the free space reads as 4294967294, so a second insert of the
  two bytes 7, 7 is accepted and returns index 1: its record starts at byte 4, where
  its offset-table entry is stored too, over the length prefix. \<^verbatim>\<open>at(1)\<close> then reads the
  length 4 and returns four bytes, the record's two and the first two of the length
  prefix of record 0.
\<close>

theorem at_returns_other_bytes_than_inserted:
  "(case insert_all 32768 [replicate 32746 97, [7, 7]] (page_ctor 32768 (replicate 32760 0)) of
      Inl e \<Rightarrow> None
    | Inr (is, pg) \<Rightarrow> Some (is, at 32768 pg 1)) =
     Some ([0, 1], Inr [7, 7, 234, 127])"
proof -
  from two_inserts_on_32768 obtain m2 where
    ins: "insert_all 32768 [replicate 32746 97, [7, 7]] (page_ctor 32768 (replicate 32760 0)) =
          Inr ([0, 1],
               \<lparr>m_header = \<lparr>free_region_start = 16, free_region_end = 4\<rparr>, m_data = m2\<rparr>)"
    and t: "take 14 m2 = [10, 0, 0, 0, 4, 0, 0, 0, 7, 7, 234, 127, 0, 0]"
    by blast
  show ?thesis
    unfolding ins using at_1_on_32768 [OF t] by simp
qed

section \<open>Page: serialization round trip\<close>

text \<open>
  For every page built by successful inserts into a new page, \<^verbatim>\<open>operator<<\<close> writes exactly
  \<open>P\<close> bytes, the two header fields in order and then the data buffer as it is, and
  reading those bytes into a freshly constructed page of the same capacity (whatever its
  uninitialised buffer \<open>mem'\<close> held) gives the same header and the same buffer.
\<close>

lemma round_trip_gives_the_same_page:
  assumes "header_size P \<le> P" and "length mem = data_size P" and "length mem' = data_size P"
    and "insert_all P ds (page_ctor P mem) = Inr (is, pg)"
  shows "length (serialize P pg) = P \<and>
         take (header_size P) (serialize P pg) =
           encode_le (offset_width P) (free_region_start (m_header pg)) @
           encode_le (offset_width P) (free_region_end (m_header pg)) \<and>
         drop (header_size P) (serialize P pg) = m_data pg \<and>
         deserialize P (serialize P pg) (page_ctor P mem') = pg"
proof -
  have wf: "wf_page P pg"
    using wf_page_insert_all [OF wf_page_ctor [OF assms(2)] assms(4)] .
  then have len: "length (m_data pg) = data_size P"
    by (simp add: wf_page_def)
  have hs: "header_size P = offset_width P + offset_width P"
    by (simp add: header_size_def)
  have a: "length (serialize P pg) = P"
    using assms(1) len by (simp add: serialize_def hs data_size_def)
  have b: "take (header_size P) (serialize P pg) =
           encode_le (offset_width P) (free_region_start (m_header pg)) @
           encode_le (offset_width P) (free_region_end (m_header pg))"
    by (simp add: serialize_def hs)
  have c: "drop (header_size P) (serialize P pg) = m_data pg"
    by (simp add: serialize_def hs)
  have d: "deserialize P (serialize P pg) (page_ctor P mem') = pg"
    using deserialize_serialize [OF wf] assms(3) by (simp add: page_ctor_def)
  show ?thesis
    using a b c d by simp
qed


section \<open>Page: pages of 8 to 16384 bytes\<close>

text \<open>
  On these pages an offset and a length prefix have two bytes each, the constant of the
  space check is the width of the prefix, and the new page's \<open>free_region_start\<close> is
  not above its \<open>free_region_end\<close>. The lemmas of this section show that the inserts
  then keep the layout \<open>page_inv\<close> and what follows from it.
\<close>

lemma size_t_nat: "0 \<le> i \<Longrightarrow> i < 2 ^ 64 \<Longrightarrow> size_t i = nat i"
  by (simp add: size_t_def)

lemma intra_offset_t_small: "P \<le> 16384 \<Longrightarrow> x < 65536 \<Longrightarrow> intra_offset_t P (int x) = x"
  by (simp add: intra_offset_t_def offset_width_def nat_mod_distrib)

lemma load_store_disjoint:
  "pos + length bs \<le> length mem \<Longrightarrow> p + k \<le> pos \<or> pos + length bs \<le> p \<Longrightarrow>
   load (store mem pos bs) p k = load mem p k"
  by (auto simp: load_store_below load_store_above)

lemma page_inv_ctor:
  assumes "8 \<le> P" and "P \<le> 16384" and "length mem = data_size P"
  shows "page_inv P (page_ctor P mem) []"
  using assms by (auto simp: page_inv_def page_ctor_def page_consts)

text \<open>The arithmetic of a successful insert on a page of at most 16384 bytes.\<close>

lemma insert_page_small:
  assumes P: "8 \<le> P" "P \<le> 16384"
    and inv: "page_inv P pg recs"
    and ins: "insert_page P d pg = Inr (i, pg')"
  shows "i = length recs"
    and "length d + 4 \<le> free_region_end (m_header pg) - free_region_start (m_header pg)"
    and "m_header pg' =
           \<lparr>free_region_start = free_region_start (m_header pg) + 2,
            free_region_end = free_region_end (m_header pg) - length d - 2\<rparr>"
    and "m_data pg' =
           store (store (store (m_data pg) (free_region_end (m_header pg) - length d - 2)
                           (encode_le 2 (length d)))
                    (free_region_end (m_header pg) - length d) d)
             (2 * length recs) (encode_le 2 (free_region_end (m_header pg) - length d - 2))"
proof -
  let ?s = "free_region_start (m_header pg)" and ?e = "free_region_end (m_header pg)"
  have w: "offset_width P = 2" and hs: "header_size P = 4"
    using P by (simp_all add: offset_width_def header_size_def)
  have D: "data_size P \<le> 16380" "4 \<le> data_size P"
    using P by (simp_all add: data_size_def hs)
  from inv have len: "length (m_data pg) = data_size P" and s: "?s = 4 + 2 * length recs"
    and se: "?s \<le> ?e" and eD: "?e \<le> data_size P"
    by (simp_all add: page_inv_def w hs)
  note r = insert_page_Inr [OF ins, unfolded w]
  let ?r = "size_t (int ?e - int (length d) - int 2)"
  from r(3) D have dl: "length d \<le> 16380" by simp
  have fs: "free_space P pg = ?e - ?s"
    using se eD D by (simp add: free_space_def w size_t_def nat_diff_distrib)
  have "size_t (int (length d) + int 2 + 2) = length d + 4"
    using dl by (simp add: size_t_def nat_add_distrib)
  with r(2) fs show fit: "length d + 4 \<le> ?e - ?s"
    by (simp add: fits_def)
  with s have rr: "?r = ?e - length d - 2"
    using eD D by (simp add: size_t_def nat_diff_distrib)
  have "size_t (int ?s - int 4) = 2 * length recs"
    using s se eD D by (subst size_t_nat) simp_all
  then have sz: "size_page P pg = length recs"
    by (simp add: size_page_def w hs)
  from r(1) sz show "i = length recs" by simp
  have "?s + 2 < 65536" and "?e - length d - 2 < 65536"
    using se eD D fit by simp_all
  then have "intra_offset_t P (int (?s + 2)) = ?s + 2"
    and "intra_offset_t P (int (?e - length d - 2)) = ?e - length d - 2"
    using P(2) by (simp_all only: intra_offset_t_small)
  then have a: "intra_offset_t P (int ?s + int 2) = ?s + 2"
    and b: "intra_offset_t P (int ?r) = ?e - length d - 2"
    by (simp_all only: rr of_nat_add)
  have c: "intra_offset_t P (int (length d)) = length d"
    using dl by (intro intra_offset_t_small [OF P(2)]) simp
  show "m_header pg' = \<lparr>free_region_start = ?s + 2, free_region_end = ?e - length d - 2\<rparr>"
    using r(5) a b by simp
  have "?r + 2 = ?e - length d"
    using fit rr by simp
  then show "m_data pg' =
           store (store (store (m_data pg) (?e - length d - 2) (encode_le 2 (length d)))
                    (?e - length d) d)
             (2 * length recs) (encode_le 2 (?e - length d - 2))"
    using r(6) b c sz rr by simp
qed


lemma insert_page_small_result:
  assumes P: "8 \<le> P" "P \<le> 16384"
    and inv: "page_inv P pg recs"
    and d: "length d + 4 < 2 ^ 64"
  shows "insert_page P d pg =
     (if free_region_end (m_header pg) - free_region_start (m_header pg) < length d + 4
      then Inl Bad_alloc
      else Inr (length recs,
        \<lparr>m_header = \<lparr>free_region_start = free_region_start (m_header pg) + 2,
                      free_region_end = free_region_end (m_header pg) - length d - 2\<rparr>,
         m_data =
           store (store (store (m_data pg) (free_region_end (m_header pg) - length d - 2)
                           (encode_le 2 (length d)))
                    (free_region_end (m_header pg) - length d) d)
             (2 * length recs) (encode_le 2 (free_region_end (m_header pg) - length d - 2))\<rparr>))"
proof -
  let ?s = "free_region_start (m_header pg)" and ?e = "free_region_end (m_header pg)"
  have w: "offset_width P = 2" and hs: "header_size P = 4"
    using P by (simp_all add: offset_width_def header_size_def)
  have D: "data_size P \<le> 16380" "4 \<le> data_size P"
    using P by (simp_all add: data_size_def hs)
  from inv have len: "length (m_data pg) = data_size P" and s: "?s = 4 + 2 * length recs"
    and se: "?s \<le> ?e" and eD: "?e \<le> data_size P"
    by (simp_all add: page_inv_def w hs)
  have fs: "free_space P pg = ?e - ?s"
    using se eD D by (simp add: free_space_def w size_t_def nat_diff_distrib)
  have need: "size_t (int (length d) + int (offset_width P) + 2) = length d + 4"
    using d by (simp add: w size_t_def nat_add_distrib)
  show ?thesis
  proof (cases "?e - ?s < length d + 4")
    case True
    then show ?thesis
      by (simp add: insert_page_def fits_def fs need)
  next
    case False
    then have fit: "length d + 4 \<le> ?e - ?s" by simp
    have r: "size_t (int ?e - int (length d) - int (offset_width P)) = ?e - length d - 2"
      using fit s eD D by (simp add: w size_t_def nat_diff_distrib)
    have "size_t (int ?s - int 4) = 2 * length recs"
      using s se eD D by (subst size_t_nat) simp_all
    then have sz: "size_page P pg = length recs"
      by (simp add: size_page_def w hs)
    have c1: "fits P pg (size_t (int (length d) + int (offset_width P) + 2))"
      using fit by (simp only: fits_def fs need)
    have c2: "size_t (int ?e - int (length d) - int (offset_width P)) + offset_width P + length d
        \<le> data_size P"
      unfolding r using fit eD by (simp add: w)
    have c3: "offset_width P * size_page P pg + offset_width P \<le> data_size P"
      unfolding sz using s se eD by (simp add: w)
    obtain i pg' where "insert_page P d pg = Inr (i, pg')"
      using c1 c2 c3 by (simp only: insert_page_def Let_def if_False not_not simp_thms)
    from this insert_page_small [OF P inv this] fit show ?thesis
      by (cases pg') simp
  qed
qed


lemma page_inv_insert:
  assumes P: "8 \<le> P" "P \<le> 16384"
    and inv: "page_inv P pg recs"
    and ins: "insert_page P d pg = Inr (i, pg')"
  shows "page_inv P pg' (recs @ [d])"
proof -
  define s e n l m where "s = free_region_start (m_header pg)"
    and "e = free_region_end (m_header pg)" and "n = length recs" and "l = length d"
    and "m = m_data pg"
  define rs where "rs = e - l - 2"
  define m1 m2 m3 where "m1 = store m rs (encode_le 2 l)" and "m2 = store m1 (e - l) d"
    and "m3 = store m2 (2 * n) (encode_le 2 rs)"
  have w: "offset_width P = 2" and hs: "header_size P = 4"
    using P by (simp_all add: offset_width_def header_size_def)
  have D: "data_size P \<le> 16380"
    using P by (simp add: data_size_def hs)
  from inv have len: "length m = data_size P" and s: "s = 4 + 2 * n"
    and se: "s \<le> e" and eD: "e \<le> data_size P"
    and recs: "\<And>k. k < n \<Longrightarrow> record_at P pg k (recs ! k)"
    by (simp_all add: page_inv_def w hs s_def e_def n_def m_def)
  note r = insert_page_small [OF P inv ins, folded s_def e_def n_def l_def m_def]
  have fit: "l + 4 \<le> e - s" by (rule r(2))
  have ld: "length d = l" by (simp add: l_def)
  have hdr: "free_region_start (m_header pg') = s + 2" "free_region_end (m_header pg') = rs"
    by (simp_all add: r(3) rs_def)
  have mem: "m_data pg' = m3"
    by (simp add: r(4) m3_def m2_def m1_def rs_def)
  have rs2: "rs + 2 = e - l" and rsl: "rs + 2 + l = e" and nrs: "2 * n + 2 \<le> rs"
    using fit s se by (simp_all add: rs_def)
  have l1: "length m1 = length m"
    unfolding m1_def using rsl eD len by (intro length_store) simp
  have "length m2 = length m1"
    unfolding m2_def using rsl eD len l1 by (intro length_store) (simp add: l_def [symmetric])
  with l1 have l2: "length m2 = length m" by simp
  have "length m3 = length m2"
    unfolding m3_def using nrs rsl eD len l2 by (intro length_store) simp
  with l2 have l3: "length m3 = length m" by simp
  have frame: "load m3 p k = load m p k" if "p + k \<le> 2 * n \<or> e \<le> p" for p k
  proof -
    have "load m3 p k = load m2 p k"
      unfolding m3_def using that nrs rsl eD len l2 by (intro load_store_disjoint) auto
    also have "\<dots> = load m1 p k"
      unfolding m2_def using that nrs rsl rs2 eD len l1 ld by (intro load_store_disjoint) auto
    also have "\<dots> = load m p k"
      unfolding m1_def using that nrs rsl eD len by (intro load_store_disjoint) auto
    finally show ?thesis .
  qed
  have off: "load m3 (2 * n) 2 = encode_le 2 rs"
    unfolding m3_def using load_store_same [of "2 * n" "encode_le 2 rs" m2] nrs rsl eD len l2
    by simp
  have pre: "load m3 rs 2 = encode_le 2 l"
  proof -
    have "load m3 rs 2 = load m2 rs 2"
      unfolding m3_def using nrs rsl eD len l2 by (intro load_store_disjoint) auto
    also have "\<dots> = load m1 rs 2"
      unfolding m2_def using rsl rs2 eD len l1 ld by (intro load_store_disjoint) auto
    also have "\<dots> = encode_le 2 l"
      unfolding m1_def using load_store_same [of rs "encode_le 2 l" m] rsl eD len by simp
    finally show ?thesis .
  qed
  have pay: "load m3 (rs + 2) l = d"
  proof -
    have "load m3 (rs + 2) l = load m2 (rs + 2) l"
      unfolding m3_def using nrs rsl eD len l2 by (intro load_store_disjoint) auto
    also have "\<dots> = d"
      unfolding m2_def rs2 using load_store_same [of "e - l" d m1] rsl rs2 eD len l1
      by (simp add: ld)
    finally show ?thesis .
  qed
  have small: "rs < 256 ^ 2" "l < 256 ^ 2"
    using rsl eD D by simp_all
  have new: "record_at P pg' n d"
    unfolding record_at_def Let_def w mem hdr
    using rsl eD small pay by (simp add: off pre decode_encode_le ld)
  have old: "record_at P pg' k (recs ! k)" if "k < n" for k
  proof -
    define ok where "ok = decode_le (load m (2 * k) 2)"
    from recs [OF that] have ro: "e \<le> ok" "ok + 2 + length (recs ! k) \<le> data_size P"
      "decode_le (load m ok 2) = length (recs ! k)"
      "load m (ok + 2) (length (recs ! k)) = recs ! k"
      by (simp_all add: record_at_def Let_def w ok_def e_def m_def)
    have a: "load m3 (2 * k) 2 = load m (2 * k) 2"
      using that by (intro frame) simp
    have b: "load m3 ok 2 = load m ok 2"
      using ro(1) by (intro frame) simp
    have c: "load m3 (ok + 2) (length (recs ! k)) = load m (ok + 2) (length (recs ! k))"
      using ro(1) by (intro frame) simp
    show ?thesis
      unfolding record_at_def Let_def w mem hdr a ok_def [symmetric] b c
      using ro rsl by simp
  qed
  show ?thesis
    unfolding page_inv_def
  proof (intro conjI allI impI)
    show "length (m_data pg') = data_size P"
      by (simp add: mem l3 len)
    show "free_region_start (m_header pg') = header_size P + offset_width P * length (recs @ [d])"
      by (simp add: hdr s w hs n_def)
    show "free_region_start (m_header pg') \<le> free_region_end (m_header pg')"
      using fit s se by (simp add: hdr rs_def)
    show "free_region_end (m_header pg') \<le> data_size P"
      using eD by (simp add: hdr rs_def)
    show "record_at P pg' k ((recs @ [d]) ! k)" if "k < length (recs @ [d])" for k
    proof (cases "k < n")
      case True
      with old [OF True] show ?thesis by (simp add: nth_append n_def)
    next
      case False
      with that have "k = n" by (simp add: n_def)
      with new show ?thesis by (simp add: n_def)
    qed
  qed
qed


lemma page_inv_size:
  assumes "P \<le> 16384" and "page_inv P pg recs"
  shows "size_page P pg = length recs"
proof -
  have w: "offset_width P = 2" and hs: "header_size P = 4"
    using assms(1) by (simp_all add: offset_width_def header_size_def)
  from assms(2) have "free_region_start (m_header pg) = 4 + 2 * length recs"
    and "free_region_start (m_header pg) \<le> data_size P"
    by (simp_all add: page_inv_def w hs)
  moreover have "data_size P \<le> 16384"
    using assms(1) by (simp add: data_size_def)
  ultimately have "size_t (int (free_region_start (m_header pg)) - int 4) = 2 * length recs"
    by (subst size_t_nat) simp_all
  then show ?thesis
    by (simp add: size_page_def w hs)
qed

lemma page_inv_at:
  assumes "P \<le> 16384" and "page_inv P pg recs"
  shows "at P pg k = (if k < length recs then Inr (recs ! k) else Inl Out_of_range)"
proof (cases "k < length recs")
  case False
  then show ?thesis
    by (simp add: at_def contains_def page_inv_size [OF assms])
next
  case True
  have w: "offset_width P = 2" and hs: "header_size P = 4"
    using assms(1) by (simp_all add: offset_width_def header_size_def)
  define ok where "ok = decode_le (load (m_data pg) (2 * k) 2)"
  from assms(2) True have "record_at P pg k (recs ! k)"
    and s: "free_region_start (m_header pg) = 4 + 2 * length recs"
    and se: "free_region_start (m_header pg) \<le> free_region_end (m_header pg)"
    and eD: "free_region_end (m_header pg) \<le> data_size P"
    by (simp_all add: page_inv_def w hs)
  then have ro: "ok + 2 + length (recs ! k) \<le> data_size P"
    "decode_le (load (m_data pg) ok 2) = length (recs ! k)"
    "load (m_data pg) (ok + 2) (length (recs ! k)) = recs ! k"
    by (simp_all add: record_at_def Let_def w ok_def)
  have tab: "2 * k + 2 \<le> data_size P"
    using True s se eD by simp
  have "size_and_offset_of P pg k = Inr (length (recs ! k), ok + 2)"
    using tab ro by (simp add: size_and_offset_of_def Let_def w ok_def [symmetric])
  then show ?thesis
    using True ro by (simp add: at_def contains_def page_inv_size [OF assms] add.assoc)
qed

lemma page_inv_insert_all:
  assumes P: "8 \<le> P" "P \<le> 16384"
  shows "page_inv P pg recs \<Longrightarrow> insert_all P ds pg = Inr (is, pg') \<Longrightarrow>
         is = [length recs ..< length recs + length ds] \<and> page_inv P pg' (recs @ ds)"
proof (induction ds arbitrary: pg recs "is")
  case Nil
  then show ?case by simp
next
  case (Cons d ds)
  from Cons.prems(2) obtain i pg1 is1 where
    one: "insert_page P d pg = Inr (i, pg1)" and
    rest: "insert_all P ds pg1 = Inr (is1, pg')" and
    "is": "is = i # is1"
    by (auto split: sum.splits prod.splits)
  have i: "i = length recs"
    using insert_page_small(1) [OF P Cons.prems(1) one] .
  have inv1: "page_inv P pg1 (recs @ [d])"
    using page_inv_insert [OF P Cons.prems(1) one] .
  from Cons.IH [OF inv1 rest]
  have is1: "is1 = [length (recs @ [d]) ..< length (recs @ [d]) + length ds]"
    and inv': "page_inv P pg' ((recs @ [d]) @ ds)"
    by blast+
  have "[length recs ..< length recs + length (d # ds)] =
        length recs # [Suc (length recs) ..< length recs + length (d # ds)]"
    by (rule upt_conv_Cons) simp
  also have "[Suc (length recs) ..< length recs + length (d # ds)] = is1"
    by (simp add: is1)
  finally have "is = [length recs ..< length recs + length (d # ds)]"
    by (simp only: "is" i)
  with inv' show ?case by simp
qed

text \<open>
  Pages of 8 to 16384 bytes: after any successful inserts into a new page, \<^verbatim>\<open>at\<close> raises
  out-of-range from \<^verbatim>\<open>size()\<close> on and returns below it the bytes of the insert that
  returned the index.
\<close>

lemma small_page_at_after_inserts:
  assumes "8 \<le> P" and "P \<le> 16384" and "length mem = data_size P"
    and "insert_all P ds (page_ctor P mem) = Inr (is, pg)"
  shows "size_page P pg = length ds \<and> is = [0 ..< length ds] \<and>
         (at P pg index = Inl Out_of_range \<longleftrightarrow> size_page P pg \<le> index) \<and>
         (\<forall>k < length ds. at P pg (is ! k) = Inr (ds ! k))"
proof -
  have inv0: "page_inv P (page_ctor P mem) []"
    using assms(1-3) by (rule page_inv_ctor)
  from page_inv_insert_all [OF assms(1,2) inv0 assms(4)]
  have "is": "is = [0 ..< length ds]" and inv: "page_inv P pg ds"
    by simp_all
  note at = page_inv_at [OF assms(2) inv] and sz = page_inv_size [OF assms(2) inv]
  show ?thesis
    by (simp add: at sz "is")
qed

text \<open>
  Pages of 8 to 16384 bytes, in a state some inserts into a new page have reached:
  \<^verbatim>\<open>insert\<close> raises out-of-space exactly when the record with its two bytes of offset
  and two of length prefix exceeds the free region; otherwise it lowers the free space
  by that much, raises the size by one and keeps
  \<open>free_region_start \<le> free_region_end \<le> data_size\<close>.
\<close>

lemma small_page_insert:
  assumes P: "8 \<le> P" "P \<le> 16384" and mem: "length mem = data_size P"
    and pg: "insert_all P ds (page_ctor P mem) = Inr (is, pg)"
    and d: "length d + 4 < 2 ^ 64"
  shows "free_region_start (m_header pg) \<le> free_region_end (m_header pg) \<and>
         free_region_end (m_header pg) \<le> data_size P \<and>
         free_space P pg = free_region_end (m_header pg) - free_region_start (m_header pg) \<and>
         (insert_page P d pg = Inl Bad_alloc \<longleftrightarrow>
            free_region_end (m_header pg) - free_region_start (m_header pg) <
              length d + offset_width P + offset_width P) \<and>
         (\<forall>i pg'. insert_page P d pg = Inr (i, pg') \<longrightarrow>
            free_space P pg' + (length d + 2 * offset_width P) = free_space P pg \<and>
            size_page P pg' = size_page P pg + 1)"
proof -
  have w: "offset_width P = 2"
    using P by (simp add: offset_width_def)
  have inv: "page_inv P pg ds"
    using page_inv_insert_all [OF P page_inv_ctor [OF P mem] pg] by simp
  then have se: "free_region_start (m_header pg) \<le> free_region_end (m_header pg)"
    and eD: "free_region_end (m_header pg) \<le> data_size P"
    by (simp_all add: page_inv_def)
  have fs: "free_space P pg' = free_region_end (m_header pg') - free_region_start (m_header pg')"
    if "page_inv P pg' recs" for pg' recs
  proof -
    from that have "free_region_start (m_header pg') \<le> free_region_end (m_header pg')"
      and "free_region_end (m_header pg') \<le> data_size P"
      by (simp_all add: page_inv_def)
    moreover have "data_size P \<le> 16384"
      using P by (simp add: data_size_def)
    ultimately show ?thesis
      by (simp add: free_space_def w size_t_def nat_diff_distrib)
  qed
  have raise: "insert_page P d pg = Inl Bad_alloc \<longleftrightarrow>
      free_region_end (m_header pg) - free_region_start (m_header pg) <
        length d + offset_width P + offset_width P"
    by (simp add: insert_page_small_result [OF P inv d] w)
  have step: "free_space P pg' + (length d + 2 * offset_width P) = free_space P pg \<and>
      size_page P pg' = size_page P pg + 1"
    if "insert_page P d pg = Inr (i, pg')" for i pg'
  proof -
    note r = insert_page_small [OF P inv that]
    have inv': "page_inv P pg' (ds @ [d])"
      using page_inv_insert [OF P inv that] .
    show ?thesis
      using r(2) se
      by (simp add: fs [OF inv] fs [OF inv'] r(3) w page_inv_size [OF P(2) inv]
            page_inv_size [OF P(2) inv'])
  qed
  show ?thesis
    using se eD fs [OF inv] raise step by blast
qed

text \<open>
  Pages of 8 to 16384 bytes: the page read back from the serialized bytes has the size
  of the original and returns at every index the bytes of the record inserted there.
\<close>

lemma small_page_round_trip:
  assumes "8 \<le> P" and "P \<le> 16384" and "length mem = data_size P"
    and "length mem' = data_size P"
    and "insert_all P ds (page_ctor P mem) = Inr (is, pg)"
  shows "length (serialize P pg) = P \<and>
         size_page P (deserialize P (serialize P pg) (page_ctor P mem')) = length ds \<and>
         (\<forall>k < length ds.
            at P (deserialize P (serialize P pg) (page_ctor P mem')) (is ! k) = Inr (ds ! k))"
proof -
  have "header_size P \<le> P"
    using assms(1,2) by (simp add: header_size_def offset_width_def)
  from round_trip_gives_the_same_page [OF this assms(3,4,5)]
  have l: "length (serialize P pg) = P"
    and d: "deserialize P (serialize P pg) (page_ctor P mem') = pg"
    by simp_all
  from small_page_at_after_inserts [OF assms(1,2,3,5), of 0]
  have sz: "size_page P pg = length ds"
    and at: "\<forall>k < length ds. at P pg (is ! k) = Inr (ds ! k)"
    by blast+
  show ?thesis
    unfolding d using l sz at by blast
qed

text \<open>The page of the repository's tests: 128 bytes, \<^verbatim>\<open>"Hello"\<close> and \<^verbatim>\<open>"World"\<close>.\<close>

lemma hello_world_page:
  "insert_all 128 [[72, 101, 108, 108, 111], [87, 111, 114, 108, 100]]
     (page_ctor 128 (replicate 124 0)) =
   Inr ([0, 1],
     \<lparr>m_header = \<lparr>free_region_start = 8, free_region_end = 110\<rparr>,
      m_data = [117, 0, 110, 0] @ replicate 106 0 @
               [5, 0, 87, 111, 114, 108, 100, 5, 0, 72, 101, 108, 108, 111]\<rparr>)"
  by (simp add: page_eval)

lemma hello_world_at:
  "at 128 \<lparr>m_header = \<lparr>free_region_start = 8, free_region_end = 110\<rparr>,
           m_data = [117, 0, 110, 0] @ replicate 106 0 @
                    [5, 0, 87, 111, 114, 108, 100, 5, 0, 72, 101, 108, 108, 111]\<rparr> 1 =
   Inr [87, 111, 114, 108, 100]"
proof -
  have "length (replicate 124 (0::byte)) = data_size 128"
    by (simp add: page_consts)
  from small_page_at_after_inserts [OF _ _ this hello_world_page, of 0]
  show ?thesis by (simp add: All_less_Suc)
qed

section \<open>Cache: lemmas on \<open>insert\<close>, \<open>get\<close> and runs\<close>

lemmas lru_eval = new_world_def lru_ctor_def insert_lru_def get_lru_def pop_back_def
  splice_front_def lock_def use_count_def

lemma insert_lru_Inr:
  "insert_lru key ptr c = Inr c' \<Longrightarrow>
     c' = c\<lparr>m_list := (next_node c, ptr) #
                  (if m_size c \<le> length (m_list c) then butlast (m_list c) else m_list c),
             m_map := (m_map c)(key \<mapsto> ptr),
             m_iter_map := (m_iter_map c)(key \<mapsto> next_node c),
             next_node := Suc (next_node c)\<rparr> \<and>
     (m_size c \<le> length (m_list c) \<longrightarrow> m_list c \<noteq> [])"
  by (auto simp: insert_lru_def pop_back_def split: if_splits)

lemma lru_inv_ctor: "lru_inv cap (lru_ctor cap)"
  by (simp add: lru_inv_def lru_ctor_def)

lemma lru_inv_insert:
  assumes "lru_inv cap c" and "insert_lru key ptr c = Inr c'"
  shows "lru_inv cap c'"
proof -
  note ins = insert_lru_Inr [OF assms(2)]
  from assms(1) have sz: "m_size c = cap" and len: "length (m_list c) \<le> cap"
    and doms: "dom (m_map c) = dom (m_iter_map c)"
    by (auto simp: lru_inv_def)
  have l: "length (m_list c') \<le> cap"
    using ins sz len by (cases "m_list c = []") auto
  have d: "dom (m_map c') = dom (m_iter_map c')"
    using ins doms by simp
  have ms: "m_size c' = cap"
    using ins sz by simp
  show ?thesis
    unfolding lru_inv_def using ms l d by simp
qed

lemma splice_front_length: "splice_front it l = Inr l' \<Longrightarrow> length l' = length l"
proof -
  assume a: "splice_front it l = Inr l'"
  then obtain n where f: "find (\<lambda>n. fst n = it) l = Some n" and l': "l' = n # remove1 n l"
    by (auto simp: splice_front_def split: option.splits)
  from f have "n \<in> set l" by (auto simp: find_Some_iff)
  then show ?thesis using l' by (simp add: length_remove1) (cases l; simp)
qed

lemma lru_inv_purge:
  "lru_inv cap c \<Longrightarrow>
   lru_inv cap (c\<lparr>m_map := (m_map c)(key := None), m_iter_map := (m_iter_map c)(key := None)\<rparr>)"
  unfolding lru_inv_def by (simp split: if_splits)

lemma lru_inv_m_list:
  "lru_inv cap c \<Longrightarrow> length l = length (m_list c) \<Longrightarrow> lru_inv cap (c\<lparr>m_list := l\<rparr>)"
  by (simp add: lru_inv_def)

lemma lru_inv_get:
  assumes "lru_inv cap c" and "get_lru ext key c = Inr (p, c')"
  shows "lru_inv cap c'"
proof (cases "m_map c key")
  case None
  with assms show ?thesis by (simp add: get_lru_def)
next
  case (Some wp)
  show ?thesis
  proof (cases "lock ext c wp")
    case None
    with Some assms(2) have "c' = c\<lparr>m_map := (m_map c)(key := None),
        m_iter_map := (m_iter_map c)(key := None)\<rparr>"
      by (simp add: get_lru_def)
    with assms(1) show ?thesis by (simp add: lru_inv_purge)
  next
    case live: (Some ob)
    with Some assms(2) obtain it l where "splice_front it (m_list c) = Inr l" "c' = c\<lparr>m_list := l\<rparr>"
      by (simp add: get_lru_def split: option.splits sum.splits)
    with assms(1) show ?thesis
      by (simp add: lru_inv_m_list splice_front_length)
  qed
qed

lemma lru_inv_step:
  assumes "lru_inv cap (cache w)" and "step c w = Inr w'"
  shows "lru_inv cap (cache w')"
proof (cases c)
  case Make_shared
  with assms show ?thesis by auto
next
  case (Release ob)
  with assms show ?thesis by (auto split: if_splits)
next
  case (Insert_ptr key ptr)
  with assms show ?thesis
    by (auto split: if_splits sum.splits dest: lru_inv_insert)
next
  case (Insert_value key)
  with assms show ?thesis
    by (auto split: sum.splits dest: lru_inv_insert)
next
  case (Get key keep)
  with assms show ?thesis
    by (auto split: sum.splits prod.splits dest: lru_inv_get)
qed

lemma lru_inv_run:
  "lru_inv cap (cache w) \<Longrightarrow> run cs w = Inr w' \<Longrightarrow> lru_inv cap (cache w')"
proof (induction cs arbitrary: w)
  case Nil
  then show ?case by simp
next
  case (Cons c cs)
  then show ?case
    by (auto split: sum.splits dest: lru_inv_step)
qed

lemma step_m_size: "step c w = Inr w' \<Longrightarrow> m_size (cache w') = m_size (cache w)"
  by (cases c)
     (auto simp: insert_lru_def get_lru_def split: if_splits sum.splits option.splits prod.splits)

lemma run_m_size: "run cs w = Inr w' \<Longrightarrow> m_size (cache w') = m_size (cache w)"
proof (induction cs arbitrary: w)
  case Nil
  then show ?case by simp
next
  case (Cons c cs)
  then show ?case by (auto split: sum.splits dest: step_m_size)
qed

section \<open>Cache: the eviction branch\<close>

text \<open>
  C10. In a cache constructed with capacity at least 1, after any sequence of calls,
  whenever \<^verbatim>\<open>insert\<close> takes its eviction branch (the list is at least as long as the
  capacity) the list is not empty, so \<^verbatim>\<open>pop_back\<close> is defined and removes the tail. With
  capacity 0 the first \<^verbatim>\<open>insert\<close> reaches \<^verbatim>\<open>pop_back\<close> on the empty list.
\<close>

theorem eviction_branch_list_nonempty:
  assumes "1 \<le> cap" and "run cs (new_world cap) = Inr w"
    and "m_size (cache w) \<le> length (m_list (cache w))"
  shows "m_list (cache w) \<noteq> [] \<and>
         pop_back (m_list (cache w)) = Inr (butlast (m_list (cache w))) \<and>
         insert_lru key ptr (cache w) \<noteq> Inl Pop_back_empty \<and>
         insert_lru key ptr (lru_ctor 0) = Inl Pop_back_empty"
proof -
  have "m_size (cache w) = cap"
    using run_m_size [OF assms(2)] by (simp add: new_world_def lru_ctor_def)
  with assms(1,3) have ne: "m_list (cache w) \<noteq> []" by auto
  then show ?thesis
    by (simp add: pop_back_def insert_lru_def lru_ctor_def)
qed

theorem eviction_branch_list_nonempty_witness:
  "(1::nat) \<le> 2 \<and>
   (case run [Insert_value (1::nat), Insert_value 2] (new_world 2) of
      Inl e \<Rightarrow> None
    | Inr w \<Rightarrow>
        Some (m_size (cache w), length (m_list (cache w)), pop_back (m_list (cache w)),
              insert_lru 3 (Some 2) (cache w) \<noteq> Inl Pop_back_empty)) =
     Some (2, 2, Inr [(1, Some 1)], True) \<and>
   insert_lru (3::nat) (Some 2) (lru_ctor 0) = Inl Pop_back_empty"
proof -
  have r: "run [Insert_value (1::nat), Insert_value 2] (new_world 2) =
     Inr \<lparr>cache = \<lparr>m_list = [(1, Some 1), (0, Some 0)],
                     m_map = [1 \<mapsto> Some 0, 2 \<mapsto> Some 1],
                     m_iter_map = [1 \<mapsto> 0, 2 \<mapsto> 1],
                     m_size = 2, next_node = 2\<rparr>,
          owners = (\<lambda>_. 0), next_obj = 2\<rparr>"
    by (simp add: lru_eval)
  show ?thesis
    unfolding r using eviction_branch_list_nonempty [OF _ r, of 3 "Some 2"] by simp
qed

section \<open>Cache: who owns the values\<close>

text \<open>
  C4, as claimed: the cache holds only non-owning references, eviction never destroys a
  value, and a value with no external owner is dead to the cache. In a cache of capacity
  1, a value inserted through \<^verbatim>\<open>insert(key, value)\<close> has no external owner; it has use
  count 1 and its weak reference locks, because the list node owns it; the next insert
  evicts that node, the use count falls to 0 and the value is destroyed.
\<close>

theorem cache_owned_value_dies_at_eviction:
  "(case run [Insert_value (1::nat)] (new_world 1) of
      Inl e \<Rightarrow> None
    | Inr w \<Rightarrow>
        Some (owners w 0, use_count (owners w) (cache w) 0,
              lock (owners w) (cache w) (Some 0))) =
     Some (0, 1, Some 0) \<and>
   (case run [Insert_value (1::nat), Insert_value 2] (new_world 1) of
      Inl e \<Rightarrow> None
    | Inr w \<Rightarrow>
        Some (owners w 0, use_count (owners w) (cache w) 0,
              lock (owners w) (cache w) (Some 0))) =
     Some (0, 0, None)"
  by (simp add: lru_eval)

text \<open>
  C4, amended. The nodes of the recency list hold owning references; only the map from
  keys to references holds non-owning ones. After \<^verbatim>\<open>insert(key, ptr)\<close> with a pointer
  that is not null, the value has a strong reference inside the cache, so its use count
  is positive and the key's weak reference locks whatever the external owners \<open>ext\<close> are.
  When the insert evicts the tail node and that node points to another value, the
  value's use count falls by one: the eviction destroys it exactly when no other strong
  reference is left.
\<close>

theorem recency_list_owns_values:
  assumes "insert_lru key (Some ob) c = Inr c'"
  shows "0 < use_count ext c' ob \<and> lock ext c' (Some ob) = Some ob \<and>
         m_map c' key = Some (Some ob) \<and>
         (m_size c \<le> length (m_list c) \<and> snd (last (m_list c)) = Some old \<and> old \<noteq> ob \<longrightarrow>
            use_count ext c' old + 1 = use_count ext c old)"
proof -
  note ins = insert_lru_Inr [OF assms]
  have own: "0 < use_count ext c' ob"
    using ins by (simp add: use_count_def)
  have evict: "use_count ext c' old + 1 = use_count ext c old"
    if "m_size c \<le> length (m_list c)" "snd (last (m_list c)) = Some old" "old \<noteq> ob"
  proof -
    from that(1) ins have ne: "m_list c \<noteq> []" by simp
    have "filter (\<lambda>n. snd n = Some old) (m_list c) =
          filter (\<lambda>n. snd n = Some old) (butlast (m_list c) @ [last (m_list c)])"
      using ne by simp
    also have "\<dots> = filter (\<lambda>n. snd n = Some old) (butlast (m_list c)) @ [last (m_list c)]"
      using that(2) by simp
    finally show ?thesis
      using ins that by (simp add: use_count_def)
  qed
  show ?thesis
    using own evict ins by (simp add: lock_def)
qed

theorem recency_list_owns_values_witness:
  "(case run [Insert_value (1::nat)] (new_world 1) of
      Inl e \<Rightarrow> None
    | Inr w \<Rightarrow>
        (case insert_lru 2 (Some 1) (cache w) of
           Inl e \<Rightarrow> None
         | Inr c' \<Rightarrow>
             Some (use_count (owners w) c' 1, lock (owners w) c' (Some 1), m_map c' 2,
                   m_size (cache w), length (m_list (cache w)),
                   snd (last (m_list (cache w))),
                   use_count (owners w) (cache w) 0, use_count (owners w) c' 0))) =
     Some (1, Some 1, Some (Some 1), 1, 1, Some 0, 1, 0)"
proof -
  have r: "run [Insert_value (1::nat)] (new_world 1) =
      Inr \<lparr>cache = \<lparr>m_list = [(0, Some 0)], m_map = [1 \<mapsto> Some 0],
                      m_iter_map = [1 \<mapsto> 0], m_size = 1, next_node = 1\<rparr>,
           owners = (\<lambda>_. 0), next_obj = 1\<rparr>"
    by (simp add: lru_eval)
  have ins: "insert_lru (2::nat) (Some 1)
        \<lparr>m_list = [(0, Some 0)], m_map = [1 \<mapsto> Some 0],
         m_iter_map = [1 \<mapsto> 0], m_size = 1, next_node = 1\<rparr> =
      Inr \<lparr>m_list = [(1, Some 1)], m_map = [1 \<mapsto> Some 0, 2 \<mapsto> Some 1],
           m_iter_map = [1 \<mapsto> 0, 2 \<mapsto> 1], m_size = 1, next_node = 2\<rparr>"
    by (simp add: lru_eval)
  show ?thesis
    unfolding r sum.case world.simps ins
    using recency_list_owns_values [OF ins, of "\<lambda>_. 0" 0] by (simp add: lru_eval)
qed

section \<open>Cache: \<open>get\<close> after the external owner is gone\<close>

text \<open>
  C5, as claimed: after inserting a key and releasing the value's only strong owner, the
  next \<^verbatim>\<open>get\<close> returns absent and purges the key. A caller makes a value, inserts it
  under key 1 in a cache of capacity 2 and drops its pointer: no external owner is left,
  and \<^verbatim>\<open>get(1)\<close> returns the value and leaves the cache as it is.
\<close>

theorem get_after_release_returns_the_value:
  "(case run [Make_shared, Insert_ptr (1::nat) (Some 0), Release 0] (new_world 2) of
      Inl e \<Rightarrow> None
    | Inr w \<Rightarrow>
        Some (owners w 0,
              case get_lru (owners w) 1 (cache w) of
                Inl e \<Rightarrow> None
              | Inr (p, c) \<Rightarrow> Some (p, m_list c, m_map c 1, m_iter_map c 1))) =
     Some (0, Some (Some 0, [(0, Some 0)], Some (Some 0), Some 0))"
  by (simp add: lru_eval)

text \<open>
  C5, amended. After \<^verbatim>\<open>insert(key, ptr)\<close> with a pointer that is not null, the recency
  list is a strong owner of the value: whatever the external owners do afterwards, also
  when none is left, the next \<^verbatim>\<open>get(key)\<close> returns the value and leaves the cache
  unchanged. In any cache state \<open>d\<close>, when a key is present and its weak reference does
  not lock, \<^verbatim>\<open>get\<close> returns absent and erases the key from the two maps; it leaves the
  recency list, whose length decides later evictions, as it is.
\<close>

theorem get_after_insert_returns_value:
  assumes "insert_lru key (Some ob) c = Inr c'"
  shows "get_lru ext key c' = Inr (Some ob, c') \<and>
         (m_map d k = Some wp \<and> lock ext' d wp = None \<longrightarrow>
            get_lru ext' k d =
              Inr (None, d\<lparr>m_map := (m_map d)(k := None),
                           m_iter_map := (m_iter_map d)(k := None)\<rparr>) \<and>
            m_list (d\<lparr>m_map := (m_map d)(k := None),
                       m_iter_map := (m_iter_map d)(k := None)\<rparr>) = m_list d)"
proof -
  note ins = insert_lru_Inr [OF assms]
  have "0 < use_count ext c' ob"
    using ins by (simp add: use_count_def)
  then have "get_lru ext key c' = Inr (Some ob, c')"
    using ins by (simp add: get_lru_def lock_def splice_front_def)
  moreover have "get_lru ext' k d =
      Inr (None, d\<lparr>m_map := (m_map d)(k := None), m_iter_map := (m_iter_map d)(k := None)\<rparr>)"
    if "m_map d k = Some wp" "lock ext' d wp = None"
    using that by (simp add: get_lru_def)
  ultimately show ?thesis by simp
qed

theorem get_after_insert_returns_value_witness:
  "(case insert_lru (1::nat) (Some 0) (lru_ctor 2) of
      Inl e \<Rightarrow> None
    | Inr c' \<Rightarrow>
        (case get_lru (\<lambda>_. 0) 1 c' of
           Inl e \<Rightarrow> None
         | Inr (p, c'') \<Rightarrow> Some (p, m_list c'', m_list c'))) =
     Some (Some 0, [(0, Some 0)], [(0, Some 0)]) \<and>
   (case run [Insert_value (1::nat), Insert_value 2] (new_world 1) of
      Inl e \<Rightarrow> None
    | Inr w \<Rightarrow>
        Some (m_map (cache w) 1, lock (owners w) (cache w) (Some 0),
              case get_lru (owners w) 1 (cache w) of
                Inl e \<Rightarrow> None
              | Inr (p, c) \<Rightarrow> Some (p, m_list c, m_list (cache w), m_map c 1, m_iter_map c 1))) =
     Some (Some (Some 0), None, Some (None, [(1, Some 1)], [(1, Some 1)], None, None))"
proof -
  have ins: "insert_lru (1::nat) (Some 0) (lru_ctor 2) =
      Inr \<lparr>m_list = [(0, Some 0)], m_map = [1 \<mapsto> Some 0],
           m_iter_map = [1 \<mapsto> 0], m_size = 2, next_node = 1\<rparr>"
    by (simp add: lru_eval)
  have r: "run [Insert_value (1::nat), Insert_value 2] (new_world 1) =
      Inr \<lparr>cache = \<lparr>m_list = [(1, Some 1)], m_map = [1 \<mapsto> Some 0, 2 \<mapsto> Some 1],
                      m_iter_map = [1 \<mapsto> 0, 2 \<mapsto> 1], m_size = 1, next_node = 2\<rparr>,
           owners = (\<lambda>_. 0), next_obj = 2\<rparr>"
    by (simp add: lru_eval)
  have dead: "lock (\<lambda>_. 0)
      (\<lparr>m_list = [(1, Some 1)], m_map = [1 \<mapsto> Some 0, 2 \<mapsto> Some 1],
        m_iter_map = [1 \<mapsto> 0, 2 \<mapsto> 1], m_size = 1, next_node = 2\<rparr> :: nat lru)
      (Some 0) = None"
    by (simp add: lru_eval)
  show ?thesis
    using get_after_insert_returns_value
      [OF ins, of "\<lambda>_. 0"
        "\<lparr>m_list = [(1, Some 1)], m_map = [1 \<mapsto> Some 0, 2 \<mapsto> Some 1],
          m_iter_map = [1 \<mapsto> 0, 2 \<mapsto> 1], m_size = 1, next_node = 2\<rparr> :: nat lru"
        1 "Some 0" "\<lambda>_. 0"]
      dead
    unfolding ins r by (simp add: lru_eval)
qed

section \<open>Cache: the list and the two maps\<close>

text \<open>
  After every sequence of calls on a cache of capacity \<open>cap\<close> the recency list is no longer
  than \<open>cap\<close> and the two maps have the same keys.
\<close>

lemma list_bounded_after_run:
  assumes "run cs (new_world cap) = Inr w"
  shows "length (m_list (cache w)) \<le> cap \<and>
         dom (m_map (cache w)) = dom (m_iter_map (cache w))"
proof -
  have "lru_inv cap (cache w)"
    using lru_inv_run [OF _ assms] by (simp add: new_world_def lru_inv_ctor)
  then show ?thesis
    by (simp add: lru_inv_def)
qed

text \<open>
  C6. The claim is that the keys of the recency list and of the two maps correspond, and
  that evicting the tail on a full insert removes that key from the list and from both
  maps. In a cache of capacity 1 a caller inserts key 1 by value, keeps the pointer that
  \<^verbatim>\<open>get(1)\<close> returns, and inserts key 2. The insert has popped the node of key 1 and
  nothing else: key 1 is still in both maps, its value is alive through the caller's
  pointer, and its stored iterator names node 0, which the list no longer has. The next
  \<^verbatim>\<open>get(1)\<close> locks the weak reference and splices with that iterator, where the class's
  documentation and its test of an insert beyond the capacity have \<^verbatim>\<open>get\<close> return
  \<^verbatim>\<open>nullptr\<close> for the removed key.
\<close>

theorem get_of_evicted_key_splices_invalid_iterator:
  "(case run [Insert_value (1::nat), Get 1 True, Insert_value 2] (new_world 1) of
      Inl e \<Rightarrow> None
    | Inr w \<Rightarrow>
        Some (m_list (cache w), m_map (cache w) 1, m_iter_map (cache w) 1,
              owners w 0, lock (owners w) (cache w) (Some 0))) =
     Some ([(1, Some 1)], Some (Some 0), Some 0, 1, Some 0) \<and>
   run [Insert_value (1::nat), Get 1 True, Insert_value 2, Get 1 False] (new_world 1) =
     Inl (Lru Invalid_iterator)"
  by (simp add: lru_eval)

end
